theory Spec2Isabelle
  imports Main "HOL-Library.Multiset" "HOL-Library.List_Lexorder" "HOL-Library.Product_Lexorder"
begin

section \<open>Strings\<close>

text \<open>
  A Python 3 \<open>str\<close> is a sequence of Unicode code points: \<open>len\<close>, indexing and slicing
  count code points, and comparison is lexicographic on them. A string is therefore a list
  of code points; the lexicographic order on lists is the order Python's \<open>sorted\<close> uses.
\<close>

type_synonym pystr = "nat list"

definition ascii :: "string \<Rightarrow> pystr" where
  "ascii s = map of_char s"

section \<open>The editor API used by commands.py\<close>

text \<open>
  \<open>sublime.Region\<close> has two end points \<open>a\<close> and \<open>b\<close>, in either order.
  \<open>begin()\<close> is the smaller one, \<open>end()\<close> the larger one, \<open>empty()\<close> holds when they
  coincide, and \<open>contains\<close> takes a point (both bounds inclusive) or a region (both of its
  end points contained).
\<close>

datatype region = Region (pt_a: int) (pt_b: int)

definition region_begin :: "region \<Rightarrow> int" where
  "region_begin r = (if pt_a r < pt_b r then pt_a r else pt_b r)"

definition region_end :: "region \<Rightarrow> int" where
  "region_end r = (if pt_a r < pt_b r then pt_b r else pt_a r)"

definition region_empty :: "region \<Rightarrow> bool" where
  "region_empty r = (pt_a r = pt_b r)"

definition contains_point :: "region \<Rightarrow> int \<Rightarrow> bool" where
  "contains_point r x = (region_begin r \<le> x \<and> x \<le> region_end r)"

definition contains_region :: "region \<Rightarrow> region \<Rightarrow> bool" where
  "contains_region r x = (contains_point r (pt_a x) \<and> contains_point r (pt_b x))"

text \<open>
  A \<open>sublime.Selection\<close> is an ordered container of regions; its contents are the list of
  its regions in iteration order. \<open>clear()\<close> leaves the empty list. How \<open>add\<close> places a
  region among those already present (the editor keeps the regions ordered and merges the
  ones that intersect) is implemented by the editor, not by this repository, so \<open>add\<close> is a
  parameter of every function that calls it. \<open>add_all\<close> adds the regions one after the
  other. Reading index \<open>0\<close> or \<open>-1\<close> of a selection without regions raises
  \<open>IndexError\<close>.
\<close>

type_synonym selection = "region list"

type_synonym sel_add = "selection \<Rightarrow> region \<Rightarrow> selection"

datatype error = IndexError

definition add_all :: "sel_add \<Rightarrow> selection \<Rightarrow> region list \<Rightarrow> selection" where
  "add_all add s rs = foldl add s rs"

definition sel_first :: "selection \<Rightarrow> error + region" where
  "sel_first s = (case s of [] \<Rightarrow> Inl IndexError | r # _ \<Rightarrow> Inr r)"

definition sel_last :: "selection \<Rightarrow> error + region" where
  "sel_last s = (if s = [] then Inl IndexError else Inr (last s))"

text \<open>
  What a command sees and changes of a view: its selection, the regions stored under the
  keys \<open>MARK_KEY_FORMAT.format(WARNING)\<close> and \<open>MARK_KEY_FORMAT.format(ERROR)\<close> (what
  \<open>view.get_regions\<close> returns for them), the regions passed to \<open>show_at_center\<close> and the
  texts passed to \<open>sublime.message_dialog\<close>, both in call order.
\<close>

record view =
  sel :: selection
  warning_regions :: "region list"
  error_regions :: "region list"
  shown_at_center :: "region list"
  dialogs :: "pystr list"

text \<open>\<open>persist.settings.get(key, default)\<close>, for the boolean settings read here.\<close>

definition settings_get :: "(pystr \<rightharpoonup> bool) \<Rightarrow> pystr \<Rightarrow> bool \<Rightarrow> bool" where
  "settings_get settings key dflt = (case settings key of None \<Rightarrow> dflt | Some v \<Rightarrow> v)"

section \<open>GotoErrorCommand\<close>

text \<open>The per-view error store: the items of the dict from line number to messages.\<close>

type_synonym message = "int \<times> pystr"

type_synonym errors = "(int \<times> message list) list"

definition find_mark_within :: "view \<Rightarrow> region \<Rightarrow> region option" where
  "find_mark_within v region =
     (let marks = warning_regions v @ error_regions v;
          marks = sort_key region_begin marks
      in find (\<lambda>mark. contains_region region mark) marks)"

definition select_lint_region :: "sel_add \<Rightarrow> view \<Rightarrow> region \<Rightarrow> view" where
  "select_lint_region add v region =
     (let marked_region =
            (case find_mark_within v region of
               None \<Rightarrow> Region (region_begin region) (region_begin region)
             | Some m \<Rightarrow> m)
      in v\<lparr>sel := add [] marked_region,
           shown_at_center := shown_at_center v @ [marked_region]\<rparr>)"

text \<open>Lines 68-69: a selection without regions gets the region \<open>(0, 0)\<close>.\<close>

definition ensure_caret :: "sel_add \<Rightarrow> view \<Rightarrow> view" where
  "ensure_caret add v =
     (if length (sel v) = 0 then v\<lparr>sel := add (sel v) (Region 0 0)\<rparr> else v)"

text \<open>Line 72; \<open>sel[0]\<close> is read only when the selection has one region.\<close>

definition empty_selection :: "view \<Rightarrow> bool" where
  "empty_selection v = (length (sel v) = 1 \<and> region_empty (hd (sel v)))"

text \<open>Lines 75-76.\<close>

definition anchor_point :: "view \<Rightarrow> int option \<Rightarrow> pystr \<Rightarrow> error + int" where
  "anchor_point v point direction =
     (case point of
        Some p \<Rightarrow> Inr p
      | None \<Rightarrow>
          (if direction = ascii ''next''
           then map_sum id region_begin (sel_first (sel v))
           else map_sum id region_end (sel_last (sel v))))"

text \<open>Lines 78-81: the selection object filled with the warning and the error regions.\<close>

definition broad_regions :: "sel_add \<Rightarrow> view \<Rightarrow> selection" where
  "broad_regions add v =
     add_all add (add_all add [] (warning_regions v)) (error_regions v)"

definition next_match :: "int \<Rightarrow> bool \<Rightarrow> region \<Rightarrow> bool" where
  "next_match point empty_sel region =
     ((point = region_begin region \<and> empty_sel \<and> \<not> region_empty region)
      \<or> point < region_begin region)"

definition prev_match :: "int \<Rightarrow> bool \<Rightarrow> region \<Rightarrow> bool" where
  "prev_match point empty_sel region =
     ((point = region_end region \<and> empty_sel \<and> \<not> region_empty region)
      \<or> point > region_end region)"

text \<open>Lines 87-102: the two loops that leave at the first match.\<close>

definition directional_scan :: "pystr \<Rightarrow> int \<Rightarrow> bool \<Rightarrow> selection \<Rightarrow> region option" where
  "directional_scan direction point empty_sel regions =
     (if direction = ascii ''next''
      then find (next_match point empty_sel) regions
      else find (prev_match point empty_sel) (rev regions))"

text \<open>
  Lines 106-108. \<open>regions[0]\<close> in the condition is evaluated only when the scan found
  nothing and there is at most one region.
\<close>

definition wrap_target :: "(pystr \<rightharpoonup> bool) \<Rightarrow> pystr \<Rightarrow> selection \<Rightarrow> error + region option" where
  "wrap_target settings direction regions =
     (if settings_get settings (ascii ''wrap_find'') True
      then map_sum id Some
             (if direction = ascii ''next'' then sel_first regions else sel_last regions)
      else Inr None)"

definition wrap_step ::
  "(pystr \<rightharpoonup> bool) \<Rightarrow> pystr \<Rightarrow> int \<Rightarrow> selection \<Rightarrow> region option \<Rightarrow> error + region option"
where
  "wrap_step settings direction point regions found =
     (case found of
        Some r \<Rightarrow> Inr (Some r)
      | None \<Rightarrow>
          (if length regions > 1 then wrap_target settings direction regions
           else (case sel_first regions of
                   Inl e \<Rightarrow> Inl e
                 | Inr r0 \<Rightarrow>
                     (if \<not> contains_point r0 point
                      then wrap_target settings direction regions
                      else Inr None))))"

text \<open>Lines 110-117.\<close>

definition no_more_message :: "pystr \<Rightarrow> pystr" where
  "no_more_message direction = ascii ''No '' @ direction @ ascii '' lint error.''"

definition finish_goto ::
  "sel_add \<Rightarrow> view \<Rightarrow> selection \<Rightarrow> pystr \<Rightarrow> region option \<Rightarrow> region option \<times> view"
where
  "finish_goto add v saved_sel direction region_to_select =
     (case region_to_select of
        Some r \<Rightarrow> (Some r, select_lint_region add v r)
      | None \<Rightarrow>
          (None, v\<lparr>sel := add_all add [] saved_sel,
                   dialogs := dialogs v @ [no_more_message direction]\<rparr>))"

text \<open>
  \<open>goto_error\<close>. The selection object \<open>regions\<close> is the view's own selection (line 74 of
  the source says so), so filling it replaces the view's selection.
\<close>

definition goto_error ::
  "sel_add \<Rightarrow> (pystr \<rightharpoonup> bool) \<Rightarrow> view \<Rightarrow> errors \<Rightarrow> int option \<Rightarrow> pystr
     \<Rightarrow> error + (region option \<times> view)"
where
  "goto_error add settings v0 errs point direction =
     (let v = ensure_caret add v0;
          saved_sel = sel v;
          empty_sel = empty_selection v
      in case anchor_point v point direction of
           Inl e \<Rightarrow> Inl e
         | Inr pt \<Rightarrow>
             (let regions = broad_regions add v;
                  v = v\<lparr>sel := regions\<rparr>;
                  found = directional_scan direction pt empty_sel regions
              in case wrap_step settings direction pt regions found of
                   Inl e \<Rightarrow> Inl e
                 | Inr region_to_select \<Rightarrow>
                     Inr (finish_goto add v saved_sel direction region_to_select)))"

text \<open>The decorator \<open>error_command\<close> and the command it guards.\<close>

definition error_command ::
  "(view \<Rightarrow> errors \<Rightarrow> error + view) \<Rightarrow> errors option \<Rightarrow> view \<Rightarrow> error + view"
where
  "error_command f persist_errors v =
     (case persist_errors of
        Some errs \<Rightarrow>
          (if errs \<noteq> [] then f v errs
           else Inr (v\<lparr>dialogs := dialogs v @ [ascii ''No lint errors.'']\<rparr>))
      | None \<Rightarrow> Inr (v\<lparr>dialogs := dialogs v @ [ascii ''No lint errors.'']\<rparr>))"

definition is_enabled :: "errors option \<Rightarrow> bool" where
  "is_enabled persist_errors =
     (case persist_errors of Some errs \<Rightarrow> length errs > 0 | None \<Rightarrow> False)"

definition goto_error_run ::
  "sel_add \<Rightarrow> (pystr \<rightharpoonup> bool) \<Rightarrow> errors option \<Rightarrow> view \<Rightarrow> int option \<Rightarrow> pystr
     \<Rightarrow> error + view"
where
  "goto_error_run add settings persist_errors v point direction =
     error_command
       (\<lambda>v errs. map_sum id snd (goto_error add settings v errs point direction))
       persist_errors v"

section \<open>SublimelinterShowAllErrors\<close>

text \<open>
  Python's \<open>str.rstrip(chars)\<close>, \<open>str.lstrip()\<close> (which removes the characters for which
  \<open>str.isspace\<close> holds), the slices \<open>s[k:]\<close> and \<open>s[:k]\<close> (a negative \<open>k\<close> counts from
  the end, and both clamp to the string), and the decimal numeral that \<open>format\<close> writes
  for an \<open>int\<close>.
\<close>

definition rstrip :: "nat list \<Rightarrow> pystr \<Rightarrow> pystr" where
  "rstrip chars s = rev (dropWhile (\<lambda>c. c \<in> set chars) (rev s))"

definition isspace :: "nat \<Rightarrow> bool" where
  "isspace c =
     (c \<in> set [9, 10, 11, 12, 13, 28, 29, 30, 31, 32, 133, 160, 5760,
                8232, 8233, 8239, 8287, 12288]
      \<or> (8192 \<le> c \<and> c \<le> 8202))"

definition lstrip :: "pystr \<Rightarrow> pystr" where
  "lstrip s = dropWhile isspace s"

definition slice_index :: "pystr \<Rightarrow> int \<Rightarrow> nat" where
  "slice_index s k = nat (if k < 0 then int (length s) + k else k)"

definition slice_from :: "pystr \<Rightarrow> int \<Rightarrow> pystr" where
  "slice_from s k = drop (slice_index s k) s"

definition slice_to :: "pystr \<Rightarrow> int \<Rightarrow> pystr" where
  "slice_to s k = take (slice_index s k) s"

fun digits :: "nat \<Rightarrow> pystr" where
  "digits n = (if n < 10 then [48 + n] else digits (n div 10) @ [48 + n mod 10])"

definition str_int :: "int \<Rightarrow> pystr" where
  "str_int i = (if i < 0 then 45 # digits (nat (- i)) else digits (nat i))"

definition max_prefix_len :: int where
  "max_prefix_len = 40"

text \<open>The arrow of line 189 is the single character U+279C.\<close>

definition arrow :: pystr where
  "arrow = [10140]"

text \<open>
  The body of the inner loop (lines 174-190): the entry appended to \<open>error_info\<close> and
  the two-element list appended to \<open>options\<close>.
\<close>

definition quick_panel_row :: "int \<Rightarrow> pystr \<Rightarrow> int \<Rightarrow> message \<Rightarrow> (int \<times> int) \<times> pystr list" where
  "quick_panel_row lineno line diff message =
     (let column = fst message;
          info = (lineno, column);
          column = column - diff;
          (visible_line, column) =
            (if column > max_prefix_len
             then (ascii ''...'' @ slice_from line (column - max_prefix_len), max_prefix_len + 3)
             else (line, column));
          code = slice_to visible_line column @ arrow @ slice_from visible_line column
      in (info, [str_int (lineno + 1) @ ascii ''  '' @ snd message, code]))"

text \<open>
  The body of the outer loop (lines 163-190). \<open>full_line lineno\<close> is the text of
  \<open>view.substr(view.full_line(view.text_point(lineno, 0)))\<close>.
\<close>

definition line_rows :: "(int \<Rightarrow> pystr) \<Rightarrow> int \<times> message list \<Rightarrow> ((int \<times> int) \<times> pystr list) list" where
  "line_rows full_line item =
     (let lineno = fst item;
          messages = snd item;
          line = rstrip [10, 13] (full_line lineno);
          diff = int (length line);
          line = lstrip line;
          diff = diff - int (length line)
      in map (quick_panel_row lineno line diff) (sort messages))"

text \<open>
  \<open>SublimelinterShowAllErrors.run\<close>: \<open>error_info\<close> and the \<open>options\<close> handed to
  \<open>show_quick_panel\<close>. \<open>errors\<close> is \<open>errors.items()\<close> in the dict's iteration order.
\<close>

definition show_all_errors :: "(int \<Rightarrow> pystr) \<Rightarrow> errors \<Rightarrow> (int \<times> int) list \<times> pystr list list" where
  "show_all_errors full_line errs =
     (let rows = concat (map (line_rows full_line) (sort errs))
      in (map fst rows, map snd rows))"

section \<open>Example inputs\<close>

text \<open>
  A selection whose \<open>add\<close> keeps the regions in ascending \<open>begin\<close> order, and a view
  with three marked regions, for the instances below.
\<close>

abbreviation add_sorted :: sel_add where
  "add_sorted \<equiv> (\<lambda>s r. insort_key region_begin r s)"

abbreviation view_three :: view where
  "view_three \<equiv> \<lparr>sel = [Region 5 9], warning_regions = [Region 5 9, Region 20 25],
     error_regions = [Region 12 15], shown_at_center = [], dialogs = []\<rparr>"

abbreviation view_one :: view where
  "view_one \<equiv> \<lparr>sel = [Region 5 7], warning_regions = [Region 0 10],
     error_regions = [], shown_at_center = [], dialogs = []\<rparr>"

abbreviation view_unmarked :: view where
  "view_unmarked \<equiv> \<lparr>sel = [Region 3 3], warning_regions = [], error_regions = [],
     shown_at_center = [], dialogs = []\<rparr>"

section \<open>Auxiliary facts\<close>

subsection \<open>Lists\<close>

lemma find_rev_Some_iff:
  "find P (rev xs) = Some x \<longleftrightarrow>
     (\<exists>i<length xs. xs ! i = x \<and> P x \<and> (\<forall>j. i < j \<and> j < length xs \<longrightarrow> \<not> P (xs ! j)))"
proof (induction xs rule: rev_induct)
  case Nil
  then show ?case by simp
next
  case (snoc y ys)
  show ?case
  proof (cases "P y")
    case True
    have "(\<exists>i<Suc (length ys). (ys @ [y]) ! i = x \<and> P x \<and>
            (\<forall>j. i < j \<and> j < Suc (length ys) \<longrightarrow> \<not> P ((ys @ [y]) ! j))) \<longleftrightarrow> y = x"
    proof
      assume "\<exists>i<Suc (length ys). (ys @ [y]) ! i = x \<and> P x \<and>
            (\<forall>j. i < j \<and> j < Suc (length ys) \<longrightarrow> \<not> P ((ys @ [y]) ! j))"
      then obtain i where i: "i < Suc (length ys)" "(ys @ [y]) ! i = x"
        and later: "\<forall>j. i < j \<and> j < Suc (length ys) \<longrightarrow> \<not> P ((ys @ [y]) ! j)" by blast
      have "i = length ys"
      proof (rule ccontr)
        assume "i \<noteq> length ys"
        with i have "i < length ys" by simp
        with later[THEN spec, of "length ys"] have "\<not> P ((ys @ [y]) ! length ys)" by simp
        with True show False by simp
      qed
      with i show "y = x" by simp
    next
      assume "y = x"
      with True show "\<exists>i<Suc (length ys). (ys @ [y]) ! i = x \<and> P x \<and>
            (\<forall>j. i < j \<and> j < Suc (length ys) \<longrightarrow> \<not> P ((ys @ [y]) ! j))"
        by (intro exI[of _ "length ys"]) auto
    qed
    with True show ?thesis by simp
  next
    case False
    have "(\<exists>i<Suc (length ys). (ys @ [y]) ! i = x \<and> P x \<and>
            (\<forall>j. i < j \<and> j < Suc (length ys) \<longrightarrow> \<not> P ((ys @ [y]) ! j))) \<longleftrightarrow>
          (\<exists>i<length ys. ys ! i = x \<and> P x \<and> (\<forall>j. i < j \<and> j < length ys \<longrightarrow> \<not> P (ys ! j)))"
      (is "?L \<longleftrightarrow> ?R")
    proof
      assume ?L
      then obtain i where i: "i < Suc (length ys)" "(ys @ [y]) ! i = x" "P x"
        and later: "\<forall>j. i < j \<and> j < Suc (length ys) \<longrightarrow> \<not> P ((ys @ [y]) ! j)" by blast
      have "i \<noteq> length ys" using i False by auto
      with i have il: "i < length ys" by simp
      have "\<forall>j. i < j \<and> j < length ys \<longrightarrow> \<not> P (ys ! j)"
      proof (intro allI impI)
        fix j assume j: "i < j \<and> j < length ys"
        then have "\<not> P ((ys @ [y]) ! j)" using later by simp
        with j show "\<not> P (ys ! j)" by (simp add: nth_append)
      qed
      with il i show ?R by (auto simp: nth_append)
    next
      assume ?R
      then obtain i where i: "i < length ys" "ys ! i = x" "P x"
        and later: "\<forall>j. i < j \<and> j < length ys \<longrightarrow> \<not> P (ys ! j)" by blast
      have "\<forall>j. i < j \<and> j < Suc (length ys) \<longrightarrow> \<not> P ((ys @ [y]) ! j)"
        using later False by (auto simp: nth_append less_Suc_eq)
      with i show ?L by (intro exI[of _ i]) (simp add: nth_append)
    qed
    with False snoc show ?thesis by simp
  qed
qed

lemma hd_eq_last_short: "xs \<noteq> [] \<Longrightarrow> \<not> length xs > 1 \<Longrightarrow> hd xs = last xs"
  by (cases xs) auto

subsection \<open>Regions and selections\<close>

lemma contains_region_iff:
  "contains_region r m \<longleftrightarrow> region_begin r \<le> region_begin m \<and> region_end m \<le> region_end r"
  by (auto simp: contains_region_def contains_point_def region_begin_def region_end_def)

lemma add_all_Nil [simp]: "add_all add s [] = s"
  by (simp add: add_all_def)

lemma sel_first_nonempty: "s \<noteq> [] \<Longrightarrow> sel_first s = Inr (hd s)"
  by (cases s) (simp_all add: sel_first_def)

lemma sel_last_nonempty: "s \<noteq> [] \<Longrightarrow> sel_last s = Inr (last s)"
  by (simp add: sel_last_def)

lemma broad_regions_sel_update [simp]: "broad_regions add (v\<lparr>sel := s\<rparr>) = broad_regions add v"
  by (simp add: broad_regions_def)

lemma select_lint_region_sel_update [simp]:
  "select_lint_region add (v\<lparr>sel := s\<rparr>) r = select_lint_region add v r"
  by (simp add: select_lint_region_def find_mark_within_def)

lemma ensure_caret_nonempty: "sel v \<noteq> [] \<Longrightarrow> ensure_caret add v = v"
  by (simp add: ensure_caret_def)

lemma ensure_caret_sel: "ensure_caret add v = v\<lparr>sel := sel (ensure_caret add v)\<rparr>"
  by (simp add: ensure_caret_def)

subsection \<open>The stages of \<open>goto_error\<close>\<close>

lemma anchor_point_defined:
  "point \<noteq> None \<or> sel v \<noteq> [] \<Longrightarrow> anchor_point v point direction =
     Inr (case point of Some p \<Rightarrow> p
          | None \<Rightarrow> if direction = ascii ''next'' then region_begin (hd (sel v))
                    else region_end (last (sel v)))"
  by (cases point) (auto simp: anchor_point_def sel_first_nonempty sel_last_nonempty)

lemma directional_scan_next_index:
  assumes "i < length regions" "next_match pt es (regions ! i)"
    and "\<forall>j<i. \<not> next_match pt es (regions ! j)"
  shows "directional_scan (ascii ''next'') pt es regions = Some (regions ! i)"
proof -
  have "find (next_match pt es) regions = Some (regions ! i)"
    unfolding find_Some_iff using assms by blast
  then show ?thesis by (simp add: directional_scan_def)
qed

lemma directional_scan_prev_index:
  assumes "direction \<noteq> ascii ''next''"
    and "i < length regions" "prev_match pt es (regions ! i)"
    and "\<forall>j. i < j \<and> j < length regions \<longrightarrow> \<not> prev_match pt es (regions ! j)"
  shows "directional_scan direction pt es regions = Some (regions ! i)"
proof -
  have "find (prev_match pt es) (rev regions) = Some (regions ! i)"
    unfolding find_rev_Some_iff using assms by blast
  then show ?thesis using assms(1) by (simp add: directional_scan_def)
qed

lemma directional_scan_None:
  "directional_scan direction pt es regions = None \<longleftrightarrow>
     (if direction = ascii ''next'' then \<forall>r \<in> set regions. \<not> next_match pt es r
      else \<forall>r \<in> set regions. \<not> prev_match pt es r)"
  by (auto simp: directional_scan_def find_None_iff)

lemma wrap_target_nonempty:
  "regions \<noteq> [] \<Longrightarrow> wrap_target settings direction regions =
     Inr (if settings_get settings (ascii ''wrap_find'') True
          then Some (if direction = ascii ''next'' then hd regions else last regions)
          else None)"
  by (simp add: wrap_target_def sel_first_nonempty sel_last_nonempty)

lemma wrap_step_None_nonempty:
  assumes "regions \<noteq> []"
  shows "wrap_step settings direction pt regions None =
     Inr (if (length regions > 1
              \<or> \<not> contains_point (if direction = ascii ''next'' then hd regions else last regions) pt)
             \<and> settings_get settings (ascii ''wrap_find'') True
          then Some (if direction = ascii ''next'' then hd regions else last regions)
          else None)"
proof (cases "length regions > 1")
  case True
  with assms show ?thesis by (simp add: wrap_step_def wrap_target_nonempty)
next
  case False
  with assms have "hd regions = last regions" by (rule hd_eq_last_short)
  with False assms show ?thesis
    by (simp add: wrap_step_def wrap_target_nonempty sel_first_nonempty)
qed

lemma wrap_step_error_iff:
  "wrap_step settings direction pt regions found = Inl e \<longleftrightarrow> found = None \<and> regions = []"
  by (cases regions; cases e)
     (auto simp: wrap_step_def wrap_target_def sel_first_def sel_last_def
        split: option.splits sum.splits)

lemma finish_goto_Some:
  "finish_goto add (v\<lparr>sel := s\<rparr>) saved direction (Some r) = (Some r, select_lint_region add v r)"
  by (simp add: finish_goto_def)

lemma finish_goto_None:
  "finish_goto add (v\<lparr>sel := s\<rparr>) saved direction None =
     (None, v\<lparr>sel := add_all add [] saved, dialogs := dialogs v @ [no_more_message direction]\<rparr>)"
  by (simp add: finish_goto_def)

subsection \<open>\<open>goto_error\<close> as a whole\<close>

text \<open>
  \<open>saved\<close> is the selection after lines 68-69, which is the selection of the view when it
  has a range.
\<close>

lemma goto_error_unfold:
  assumes "saved = sel (ensure_caret add v)" and "point \<noteq> None \<or> saved \<noteq> []"
  shows "goto_error add settings v errs point direction =
     (let pt = (case point of Some p \<Rightarrow> p
                | None \<Rightarrow> if direction = ascii ''next'' then region_begin (hd saved)
                          else region_end (last saved));
          regions = broad_regions add v
      in case wrap_step settings direction pt regions
                (directional_scan direction pt (length saved = 1 \<and> region_empty (hd saved))
                   regions) of
           Inl e \<Rightarrow> Inl e
         | Inr rts \<Rightarrow> Inr (finish_goto add (v\<lparr>sel := regions\<rparr>) saved direction rts))"
proof -
  let ?w = "ensure_caret add v"
  have w: "?w = v\<lparr>sel := saved\<rparr>" using assms(1) ensure_caret_sel[of add v] by simp
  have a: "anchor_point ?w point direction =
     Inr (case point of Some p \<Rightarrow> p
          | None \<Rightarrow> if direction = ascii ''next'' then region_begin (hd saved)
                    else region_end (last saved))"
    using assms(2) unfolding assms(1) by (rule anchor_point_defined)
  show ?thesis
    unfolding goto_error_def Let_def a
    by (simp add: w empty_selection_def cong: sum.case_cong)
qed

lemma goto_error_found:
  assumes "saved = sel (ensure_caret add v)" and "point \<noteq> None \<or> saved \<noteq> []"
    and "directional_scan direction
           (case point of Some p \<Rightarrow> p
            | None \<Rightarrow> if direction = ascii ''next'' then region_begin (hd saved)
                      else region_end (last saved))
           (length saved = 1 \<and> region_empty (hd saved)) (broad_regions add v) = Some r"
  shows "goto_error add settings v errs point direction = Inr (Some r, select_lint_region add v r)"
  using assms(3)
  by (simp add: goto_error_unfold[OF assms(1,2)] Let_def wrap_step_def finish_goto_Some)

lemma goto_error_not_found:
  assumes "saved = sel (ensure_caret add v)" and "point \<noteq> None \<or> saved \<noteq> []"
    and "broad_regions add v \<noteq> []"
    and "directional_scan direction
           (case point of Some p \<Rightarrow> p
            | None \<Rightarrow> if direction = ascii ''next'' then region_begin (hd saved)
                      else region_end (last saved))
           (length saved = 1 \<and> region_empty (hd saved)) (broad_regions add v) = None"
  shows "goto_error add settings v errs point direction =
     (let pt = (case point of Some p \<Rightarrow> p
            | None \<Rightarrow> if direction = ascii ''next'' then region_begin (hd saved)
                      else region_end (last saved));
          regions = broad_regions add v
      in if (length regions > 1
              \<or> \<not> contains_point (if direction = ascii ''next'' then hd regions else last regions) pt)
             \<and> settings_get settings (ascii ''wrap_find'') True
         then Inr (Some (if direction = ascii ''next'' then hd regions else last regions),
                   select_lint_region add v
                     (if direction = ascii ''next'' then hd regions else last regions))
         else Inr (None, v\<lparr>sel := add_all add [] saved,
                            dialogs := dialogs v @ [no_more_message direction]\<rparr>))"
  using assms(3,4)
  by (simp add: goto_error_unfold[OF assms(1,2)] Let_def wrap_step_None_nonempty
      finish_goto_Some finish_goto_None)

lemma goto_error_result_None:
  assumes "goto_error add settings v errs point direction = Inr (None, v')"
  shows "v' = v\<lparr>sel := add_all add [] (sel (ensure_caret add v)),
               dialogs := dialogs v @ [no_more_message direction]\<rparr>"
proof -
  let ?w = "ensure_caret add v"
  from assms obtain rts where
    fin: "finish_goto add (?w\<lparr>sel := broad_regions add ?w\<rparr>) (sel ?w) direction rts = (None, v')"
    by (auto simp: goto_error_def Let_def split: sum.splits)
  then have "rts = None" by (cases rts) (simp_all add: finish_goto_def)
  with fin have "v' = ?w\<lparr>sel := add_all add [] (sel ?w),
               dialogs := dialogs ?w @ [no_more_message direction]\<rparr>"
    by (simp add: finish_goto_def)
  then show ?thesis by (subst (asm) (1 3) ensure_caret_sel) simp
qed

lemma goto_error_IndexError_iff:
  assumes "point \<noteq> None \<or> sel (ensure_caret add v) \<noteq> []"
  shows "goto_error add settings v errs point direction = Inl IndexError
           \<longleftrightarrow> broad_regions add v = []"
proof -
  let ?saved = "sel (ensure_caret add v)"
  let ?pt = "case point of Some p \<Rightarrow> p
                | None \<Rightarrow> if direction = ascii ''next'' then region_begin (hd ?saved)
                          else region_end (last ?saved)"
  let ?ws = "wrap_step settings direction ?pt (broad_regions add v)
                (directional_scan direction ?pt (length ?saved = 1 \<and> region_empty (hd ?saved))
                   (broad_regions add v))"
  have scan_empty: "directional_scan direction pt es [] = None" for pt es
    by (simp add: directional_scan_def)
  have "goto_error add settings v errs point direction = Inl IndexError \<longleftrightarrow> ?ws = Inl IndexError"
    by (simp add: goto_error_unfold[OF refl assms] Let_def split: sum.splits)
  also have "\<dots> \<longleftrightarrow> directional_scan direction ?pt (length ?saved = 1 \<and> region_empty (hd ?saved))
                     (broad_regions add v) = None
       \<and> broad_regions add v = []"
    by (rule wrap_step_error_iff)
  also have "\<dots> \<longleftrightarrow> broad_regions add v = []"
    using scan_empty by auto
  finally show ?thesis .
qed

subsection \<open>The example views\<close>

lemma broad_regions_view_three:
  "broad_regions add_sorted view_three = [Region 5 9, Region 12 15, Region 20 25]"
  by (simp add: broad_regions_def add_all_def region_begin_def)

lemma broad_regions_view_one: "broad_regions add_sorted view_one = [Region 0 10]"
  by (simp add: broad_regions_def add_all_def)

subsection \<open>The quick panel\<close>

lemma quick_panel_row_code:
  "snd (quick_panel_row lineno line diff (column, msg)) ! 1 =
     (if column - diff > 40
      then slice_to (ascii ''...'' @ slice_from line (column - diff - 40)) 43 @ arrow
             @ slice_from (ascii ''...'' @ slice_from line (column - diff - 40)) 43
      else slice_to line (column - diff) @ arrow @ slice_from line (column - diff))"
  by (simp add: quick_panel_row_def Let_def max_prefix_len_def)

lemma slice_nonneg: "0 \<le> k \<Longrightarrow> slice_to s k = take (nat k) s \<and> slice_from s k = drop (nat k) s"
  by (simp add: slice_to_def slice_from_def slice_index_def)

lemma slice_to_from: "slice_to s k @ slice_from s k = s"
  by (simp add: slice_to_def slice_from_def)

lemma stripped_count:
  "int (length s) - int (length (lstrip s)) = int (length (takeWhile isspace s))"
proof -
  have "length (takeWhile isspace s) + length (dropWhile isspace s) = length s"
    by (metis length_append takeWhile_dropWhile_id)
  then show ?thesis by (simp add: lstrip_def)
qed

lemma line_rows_stripped:
  "line_rows full_line (lineno, messages) =
     map (quick_panel_row lineno (lstrip (rstrip [10, 13] (full_line lineno)))
            (int (length (takeWhile isspace (rstrip [10, 13] (full_line lineno))))))
       (sort messages)"
  by (simp add: line_rows_def Let_def stripped_count)

lemma sorted_line_block:
  "sorted ms \<Longrightarrow> sorted (map (\<lambda>m. (l, fst m, snd m)) (ms :: message list))"
  by (induction ms) (auto simp: less_eq_prod_def)

lemma sorted_blocks:
  fixes es :: errors
  assumes "sorted es" "distinct (map fst es)"
  shows "sorted (concat (map (\<lambda>item. map (\<lambda>m. (fst item, fst m, snd m)) (sort (snd item))) es))"
  using assms
proof (induction es)
  case Nil
  then show ?case by simp
next
  case (Cons e es)
  have below: "fst e < fst e'" if "e' \<in> set es" for e'
  proof -
    from Cons.prems(1) that have "e \<le> e'" by simp
    then have "fst e \<le> fst e'" by (auto simp: less_eq_prod_def)
    moreover from Cons.prems(2) that have "fst e \<noteq> fst e'" by auto
    ultimately show ?thesis by simp
  qed
  have tail: "sorted (concat (map (\<lambda>item. map (\<lambda>m. (fst item, fst m, snd m)) (sort (snd item))) es))"
    using Cons by simp
  have head: "sorted (map (\<lambda>m. (fst e, fst m, snd m)) (sort (snd e)))"
    by (rule sorted_line_block) simp
  have cross: "x \<le> y"
    if "x \<in> set (map (\<lambda>m. (fst e, fst m, snd m)) (sort (snd e)))"
      and "y \<in> set (concat (map (\<lambda>item. map (\<lambda>m. (fst item, fst m, snd m)) (sort (snd item))) es))"
    for x y
  proof -
    from that(1) have "fst x = fst e" by auto
    moreover from that(2) obtain e' where "e' \<in> set es" "fst y = fst e'" by auto
    ultimately have "fst x < fst y" using below by simp
    then show ?thesis by (simp add: less_eq_prod_def)
  qed
  have "sorted (map (\<lambda>m. (fst e, fst m, snd m)) (sort (snd e))
          @ concat (map (\<lambda>item. map (\<lambda>m. (fst item, fst m, snd m)) (sort (snd item))) es))"
    unfolding sorted_append using head tail cross by blast
  then show ?case by simp
qed

lemma sort_mset_cong: "mset xs = mset ys \<Longrightarrow> sort xs = sort (ys :: 'a :: linorder list)"
  by (rule properties_for_sort) simp_all

lemma line_rows_keys:
  "line_rows full_line item =
     map (\<lambda>m. ((fst item, fst m),
               snd (quick_panel_row (fst item)
                      (lstrip (rstrip [10, 13] (full_line (fst item))))
                      (int (length (rstrip [10, 13] (full_line (fst item))))
                        - int (length (lstrip (rstrip [10, 13] (full_line (fst item))))))
                      m)))
       (sort (snd item))"
  by (simp add: line_rows_def Let_def quick_panel_row_def split_def)

section \<open>Navigation\<close>

text \<open>
  In the theorems of this section \<open>saved\<close> is the selection after lines 68-69 of the
  source: the selection of the view if it has a range (\<open>ensure_caret_nonempty\<close>), and the
  result of adding \<open>(0, 0)\<close> to it otherwise. \<open>regions\<close> is the selection object that holds
  the warning and error regions, in its iteration order.
\<close>

text \<open>
  Claim C1. With at least one region and direction \<open>'next'\<close>, the anchor is the explicit
  point if there is one and the \<open>begin\<close> of the first selection range otherwise;
  \<open>goto_error\<close> walks the regions in the order of the selection object that holds them,
  and the region at the first index whose region satisfies
  \<open>(point = begin \<and> empty selection \<and> region not empty) \<or> point < begin\<close>
  is returned and handed to \<open>select_lint_region\<close>. When that order is ascending in
  \<open>begin\<close>, the region has the least \<open>begin\<close> among the regions that satisfy the
  condition.
\<close>

theorem goto_next_selects_first_match:
  assumes saved: "saved = sel (ensure_caret add v)"
    and anchored: "point \<noteq> None \<or> saved \<noteq> []"
    and regions: "regions = broad_regions add v"
    and anchor: "pt = (case point of Some p \<Rightarrow> p | None \<Rightarrow> region_begin (hd saved))"
    and es: "es \<longleftrightarrow> length saved = 1 \<and> region_empty (hd saved)"
    and i: "i < length regions"
    and hit: "(pt = region_begin (regions ! i) \<and> es \<and> \<not> region_empty (regions ! i))
              \<or> pt < region_begin (regions ! i)"
    and earlier: "\<forall>j<i. \<not> ((pt = region_begin (regions ! j) \<and> es \<and> \<not> region_empty (regions ! j))
              \<or> pt < region_begin (regions ! j))"
  shows "goto_error add settings v errs point (ascii ''next'')
           = Inr (Some (regions ! i), select_lint_region add v (regions ! i))
     \<and> (sorted (map region_begin regions) \<longrightarrow>
          (\<forall>r \<in> set regions.
             (pt = region_begin r \<and> es \<and> \<not> region_empty r) \<or> pt < region_begin r
             \<longrightarrow> region_begin (regions ! i) \<le> region_begin r))"
proof -
  have scan: "directional_scan (ascii ''next'') pt es regions = Some (regions ! i)"
    using i hit earlier by (intro directional_scan_next_index) (simp_all add: next_match_def)
  have res: "goto_error add settings v errs point (ascii ''next'')
           = Inr (Some (regions ! i), select_lint_region add v (regions ! i))"
    using scan unfolding es regions anchor
    by (intro goto_error_found[OF saved anchored]) simp
  have least: "region_begin (regions ! i) \<le> region_begin r"
    if srt: "sorted (map region_begin regions)" and r: "r \<in> set regions"
      and m: "(pt = region_begin r \<and> es \<and> \<not> region_empty r) \<or> pt < region_begin r" for r
  proof -
    from r obtain k where k: "k < length regions" "regions ! k = r"
      by (auto simp: in_set_conv_nth)
    have "\<not> k < i" using earlier m k by blast
    then have "i \<le> k" by simp
    with srt k have "map region_begin regions ! i \<le> map region_begin regions ! k"
      by (intro sorted_nth_mono) simp_all
    with k i show ?thesis by simp
  qed
  show ?thesis using res least by blast
qed

theorem goto_next_selects_first_match_witness:
  "sel (ensure_caret add_sorted view_three) = [Region 5 9]
   \<and> broad_regions add_sorted view_three = [Region 5 9, Region 12 15, Region 20 25]
   \<and> goto_error add_sorted Map.empty view_three [] None (ascii ''next'')
      = Inr (Some (Region 12 15),
             view_three\<lparr>sel := [Region 12 15], shown_at_center := [Region 12 15]\<rparr>)
   \<and> goto_error add_sorted Map.empty (view_three\<lparr>sel := []\<rparr>) [] (Some 12) (ascii ''next'')
      = Inr (Some (Region 12 15),
             view_three\<lparr>sel := [Region 12 15], shown_at_center := [Region 12 15]\<rparr>)"
proof -
  have s: "[Region 5 9] = sel (ensure_caret add_sorted view_three)"
    by (simp add: ensure_caret_def)
  have s': "[Region 0 0] = sel (ensure_caret add_sorted (view_three\<lparr>sel := []\<rparr>))"
    by (simp add: ensure_caret_def)
  have r: "[Region 5 9, Region 12 15, Region 20 25] = broad_regions add_sorted view_three"
    by (simp add: broad_regions_view_three)
  have r': "[Region 5 9, Region 12 15, Region 20 25]
              = broad_regions add_sorted (view_three\<lparr>sel := []\<rparr>)"
    by (simp add: broad_regions_def add_all_def region_begin_def)
  have sl: "select_lint_region add_sorted view_three (Region 12 15)
      = view_three\<lparr>sel := [Region 12 15], shown_at_center := [Region 12 15]\<rparr>"
    by (simp add: select_lint_region_def find_mark_within_def Let_def
        contains_region_def contains_point_def region_begin_def region_end_def)
  have sl': "select_lint_region add_sorted (view_three\<lparr>sel := []\<rparr>) (Region 12 15)
      = view_three\<lparr>sel := [Region 12 15], shown_at_center := [Region 12 15]\<rparr>"
    by (simp add: select_lint_region_def find_mark_within_def Let_def
        contains_region_def contains_point_def region_begin_def region_end_def)
  have caret: "goto_error add_sorted Map.empty view_three [] None (ascii ''next'')
      = Inr (Some (Region 12 15),
             view_three\<lparr>sel := [Region 12 15], shown_at_center := [Region 12 15]\<rparr>)"
    using goto_next_selects_first_match
      [where v = view_three and add = add_sorted and point = None and pt = 5 and es = False
         and i = 1 and regions = "[Region 5 9, Region 12 15, Region 20 25]"
         and saved = "[Region 5 9]" and settings = Map.empty and errs = "[]", OF s _ r]
      sl
    by (simp add: region_begin_def region_empty_def less_Suc_eq)
  have picked: "goto_error add_sorted Map.empty (view_three\<lparr>sel := []\<rparr>) [] (Some 12) (ascii ''next'')
      = Inr (Some (Region 12 15),
             view_three\<lparr>sel := [Region 12 15], shown_at_center := [Region 12 15]\<rparr>)"
    using goto_next_selects_first_match
      [where v = "view_three\<lparr>sel := []\<rparr>" and add = add_sorted and point = "Some 12"
         and pt = 12 and es = True
         and i = 1 and regions = "[Region 5 9, Region 12 15, Region 20 25]"
         and saved = "[Region 0 0]" and settings = Map.empty and errs = "[]", OF s' _ r']
      sl'
    by (simp add: region_begin_def region_empty_def less_Suc_eq)
  from caret picked show ?thesis
    by (simp add: ensure_caret_def broad_regions_view_three)
qed

text \<open>
  Claim C2. With at least one region and any direction other than \<open>'next'\<close>, the anchor is
  the explicit point if there is one and the \<open>end\<close> of the last selection range otherwise;
  the regions are walked from the last to the first, and the region at the last index whose
  region satisfies \<open>(point = end \<and> empty selection \<and> region not empty) \<or> point > end\<close> is
  returned and handed to \<open>select_lint_region\<close>. When the regions are in ascending \<open>end\<close>
  order, so that the walk is in descending \<open>end\<close> order, it has the greatest \<open>end\<close> among
  the regions that satisfy the condition.
\<close>

theorem goto_previous_selects_first_match:
  assumes saved: "saved = sel (ensure_caret add v)"
    and anchored: "point \<noteq> None \<or> saved \<noteq> []"
    and direction: "direction \<noteq> ascii ''next''"
    and regions: "regions = broad_regions add v"
    and anchor: "pt = (case point of Some p \<Rightarrow> p | None \<Rightarrow> region_end (last saved))"
    and es: "es \<longleftrightarrow> length saved = 1 \<and> region_empty (hd saved)"
    and i: "i < length regions"
    and hit: "(pt = region_end (regions ! i) \<and> es \<and> \<not> region_empty (regions ! i))
              \<or> pt > region_end (regions ! i)"
    and later: "\<forall>j. i < j \<and> j < length regions \<longrightarrow>
              \<not> ((pt = region_end (regions ! j) \<and> es \<and> \<not> region_empty (regions ! j))
                  \<or> pt > region_end (regions ! j))"
  shows "goto_error add settings v errs point direction
           = Inr (Some (regions ! i), select_lint_region add v (regions ! i))
     \<and> (sorted (map region_end regions) \<longrightarrow>
          (\<forall>r \<in> set regions.
             (pt = region_end r \<and> es \<and> \<not> region_empty r) \<or> pt > region_end r
             \<longrightarrow> region_end r \<le> region_end (regions ! i)))"
proof -
  have scan: "directional_scan direction pt es regions = Some (regions ! i)"
    using i hit later
    by (intro directional_scan_prev_index[OF direction]) (simp_all add: prev_match_def)
  have res: "goto_error add settings v errs point direction
           = Inr (Some (regions ! i), select_lint_region add v (regions ! i))"
    using scan direction unfolding es regions anchor
    by (intro goto_error_found[OF saved anchored]) simp
  have greatest: "region_end r \<le> region_end (regions ! i)"
    if srt: "sorted (map region_end regions)" and r: "r \<in> set regions"
      and m: "(pt = region_end r \<and> es \<and> \<not> region_empty r) \<or> pt > region_end r" for r
  proof -
    from r obtain k where k: "k < length regions" "regions ! k = r"
      by (auto simp: in_set_conv_nth)
    have "\<not> i < k" using later m k by blast
    then have "k \<le> i" by simp
    with srt i have "map region_end regions ! k \<le> map region_end regions ! i"
      by (intro sorted_nth_mono) simp_all
    with k i show ?thesis by simp
  qed
  show ?thesis using res greatest by blast
qed

theorem goto_previous_selects_first_match_witness:
  "sel (ensure_caret add_sorted (view_three\<lparr>sel := [Region 20 20]\<rparr>)) = [Region 20 20]
   \<and> ascii ''previous'' \<noteq> ascii ''next''
   \<and> broad_regions add_sorted view_three = [Region 5 9, Region 12 15, Region 20 25]
   \<and> goto_error add_sorted Map.empty (view_three\<lparr>sel := [Region 20 20]\<rparr>) [] None (ascii ''previous'')
      = Inr (Some (Region 12 15),
             view_three\<lparr>sel := [Region 12 15], shown_at_center := [Region 12 15]\<rparr>)"
proof -
  have s: "[Region 20 20] = sel (ensure_caret add_sorted (view_three\<lparr>sel := [Region 20 20]\<rparr>))"
    by (simp add: ensure_caret_def)
  have r: "[Region 5 9, Region 12 15, Region 20 25]
             = broad_regions add_sorted (view_three\<lparr>sel := [Region 20 20]\<rparr>)"
    by (simp add: broad_regions_def add_all_def region_begin_def)
  have d: "ascii ''previous'' \<noteq> ascii ''next''" by (simp add: ascii_def)
  have later: "\<forall>j. 1 < j \<and> j < length [Region 5 9, Region 12 15, Region 20 25] \<longrightarrow>
      \<not> ((20 = region_end ([Region 5 9, Region 12 15, Region 20 25] ! j) \<and> True
            \<and> \<not> region_empty ([Region 5 9, Region 12 15, Region 20 25] ! j))
          \<or> 20 > region_end ([Region 5 9, Region 12 15, Region 20 25] ! j))"
  proof (intro allI impI)
    fix j :: nat
    assume "1 < j \<and> j < length [Region 5 9, Region 12 15, Region 20 25]"
    then have "j = 2" by simp
    then show "\<not> ((20 = region_end ([Region 5 9, Region 12 15, Region 20 25] ! j) \<and> True
            \<and> \<not> region_empty ([Region 5 9, Region 12 15, Region 20 25] ! j))
          \<or> 20 > region_end ([Region 5 9, Region 12 15, Region 20 25] ! j))"
      by (simp add: region_end_def)
  qed
  have "goto_error add_sorted Map.empty (view_three\<lparr>sel := [Region 20 20]\<rparr>) [] None (ascii ''previous'')
      = Inr (Some ([Region 5 9, Region 12 15, Region 20 25] ! 1),
             select_lint_region add_sorted (view_three\<lparr>sel := [Region 20 20]\<rparr>)
               ([Region 5 9, Region 12 15, Region 20 25] ! 1))"
    using goto_previous_selects_first_match
      [where v = "view_three\<lparr>sel := [Region 20 20]\<rparr>" and add = add_sorted and point = None
         and pt = 20 and es = True and direction = "ascii ''previous''"
         and i = 1 and regions = "[Region 5 9, Region 12 15, Region 20 25]"
         and saved = "[Region 20 20]"
         and settings = Map.empty and errs = "[]", OF s _ d r _ _ _ _ later]
    by (simp add: region_end_def region_empty_def)
  then show ?thesis using d s
    by (simp add: broad_regions_view_three select_lint_region_def find_mark_within_def Let_def
        contains_region_def contains_point_def region_begin_def region_end_def)
qed

text \<open>
  Claim C3. With at least one region, when no region satisfies the condition of the scan:
  if there is more than one region, or the first region (for \<open>'next'\<close>; the last region
  otherwise) does not contain the anchor point, and the setting \<open>wrap_find\<close> (default true)
  is on, the first region (for \<open>'next'\<close>; the last region otherwise) is returned and
  selected; otherwise nothing is returned, the dialog \<open>No <direction> lint error.\<close> is
  shown and the saved selection is added back to the cleared selection. In particular, with
  exactly one region that contains the anchor point and a selection that is not a single
  empty range, this failure is the outcome whatever the setting, and the view differs from
  the one before only by the dialog when adding its ranges back to a cleared selection
  gives the selection of before.
\<close>

theorem goto_wrap_or_no_more:
  assumes saved: "saved = sel (ensure_caret add v)"
    and anchored: "point \<noteq> None \<or> saved \<noteq> []"
    and regions: "regions = broad_regions add v" "regions \<noteq> []"
    and anchor: "pt = (case point of Some p \<Rightarrow> p
            | None \<Rightarrow> if direction = ascii ''next'' then region_begin (hd saved)
                      else region_end (last saved))"
    and es: "es \<longleftrightarrow> length saved = 1 \<and> region_empty (hd saved)"
    and edge: "edge = (if direction = ascii ''next'' then hd regions else last regions)"
  shows "((if direction = ascii ''next''
           then \<forall>r \<in> set regions.
                  \<not> ((pt = region_begin r \<and> es \<and> \<not> region_empty r) \<or> pt < region_begin r)
           else \<forall>r \<in> set regions.
                  \<not> ((pt = region_end r \<and> es \<and> \<not> region_empty r) \<or> pt > region_end r))
          \<longrightarrow> goto_error add settings v errs point direction =
               (if (length regions > 1 \<or> \<not> contains_point edge pt)
                   \<and> settings_get settings (ascii ''wrap_find'') True
                then Inr (Some edge, select_lint_region add v edge)
                else Inr (None, v\<lparr>sel := add_all add [] saved,
                                  dialogs := dialogs v @ [no_more_message direction]\<rparr>)))
     \<and> (length regions = 1 \<and> contains_point (hd regions) pt \<and> \<not> es
          \<longrightarrow> goto_error add settings v errs point direction =
                 Inr (None, v\<lparr>sel := add_all add [] saved,
                                  dialogs := dialogs v @ [no_more_message direction]\<rparr>)
              \<and> (add_all add [] saved = sel v \<longrightarrow>
                   goto_error add settings v errs point direction =
                     Inr (None, v\<lparr>dialogs := dialogs v @ [no_more_message direction]\<rparr>)))"
proof -
  let ?failure = "Inr (None, v\<lparr>sel := add_all add [] saved,
                                  dialogs := dialogs v @ [no_more_message direction]\<rparr>)
                    :: error + (region option \<times> view)"
  let ?outcome = "if (length regions > 1 \<or> \<not> contains_point edge pt)
                   \<and> settings_get settings (ascii ''wrap_find'') True
                then Inr (Some edge, select_lint_region add v edge)
                else ?failure"
  have general: "goto_error add settings v errs point direction = ?outcome"
    if none: "directional_scan direction pt es regions = None"
    using goto_error_not_found[OF saved anchored, of direction settings errs]
      none regions unfolding es anchor edge
    by (simp add: Let_def)
  have single: "directional_scan direction pt es regions = None"
    if one: "length regions = 1" and inside: "contains_point (hd regions) pt" and "\<not> es"
  proof -
    from one obtain r where r: "regions = [r]" by (cases regions) auto
    with inside have "region_begin r \<le> pt" "pt \<le> region_end r"
      by (simp_all add: contains_point_def)
    with r \<open>\<not> es\<close> show ?thesis
      by (simp add: directional_scan_None next_match_def prev_match_def)
  qed
  have first: "(if direction = ascii ''next''
           then \<forall>r \<in> set regions.
                  \<not> ((pt = region_begin r \<and> es \<and> \<not> region_empty r) \<or> pt < region_begin r)
           else \<forall>r \<in> set regions.
                  \<not> ((pt = region_end r \<and> es \<and> \<not> region_empty r) \<or> pt > region_end r))
          \<longrightarrow> goto_error add settings v errs point direction = ?outcome"
  proof
    assume "if direction = ascii ''next''
           then \<forall>r \<in> set regions.
                  \<not> ((pt = region_begin r \<and> es \<and> \<not> region_empty r) \<or> pt < region_begin r)
           else \<forall>r \<in> set regions.
                  \<not> ((pt = region_end r \<and> es \<and> \<not> region_empty r) \<or> pt > region_end r)"
    then have "directional_scan direction pt es regions = None"
      unfolding directional_scan_None next_match_def prev_match_def .
    then show "goto_error add settings v errs point direction = ?outcome"
      by (rule general)
  qed
  have second: "goto_error add settings v errs point direction = ?failure"
    if a: "length regions = 1 \<and> contains_point (hd regions) pt \<and> \<not> es"
  proof -
    from a have none: "directional_scan direction pt es regions = None" using single by blast
    from a have "hd regions = last regions" by (cases regions) auto
    with a have "contains_point edge pt" unfolding edge by simp
    with general[OF none] a show ?thesis by simp
  qed
  have third: "goto_error add settings v errs point direction =
                     Inr (None, v\<lparr>dialogs := dialogs v @ [no_more_message direction]\<rparr>)"
    if a: "length regions = 1 \<and> contains_point (hd regions) pt \<and> \<not> es"
      and b: "add_all add [] saved = sel v"
    using second[OF a] b by simp
  from first second third show ?thesis by blast
qed

theorem goto_wrap_or_no_more_witness:
  "sel (ensure_caret add_sorted view_one) = [Region 5 7]
   \<and> broad_regions add_sorted view_one = [Region 0 10]
   \<and> contains_point (Region 0 10) 5 \<and> \<not> region_empty (Region 5 7)
   \<and> goto_error add_sorted [ascii ''wrap_find'' \<mapsto> True] view_one [] None (ascii ''next'')
      = Inr (None, view_one\<lparr>dialogs := [ascii ''No next lint error.'']\<rparr>)
   \<and> goto_error add_sorted [ascii ''wrap_find'' \<mapsto> True] (view_one\<lparr>sel := [Region 12 12]\<rparr>)
        [] None (ascii ''next'')
      = Inr (Some (Region 0 10),
             view_one\<lparr>sel := [Region 0 10], shown_at_center := [Region 0 10]\<rparr>)"
proof -
  have s: "[Region 5 7] = sel (ensure_caret add_sorted view_one)"
    by (simp add: ensure_caret_def)
  have s': "[Region 12 12] = sel (ensure_caret add_sorted (view_one\<lparr>sel := [Region 12 12]\<rparr>))"
    by (simp add: ensure_caret_def)
  have r: "[Region 0 10] = broad_regions add_sorted view_one"
    by (simp add: broad_regions_view_one)
  have r': "[Region 0 10] = broad_regions add_sorted (view_one\<lparr>sel := [Region 12 12]\<rparr>)"
    by (simp add: broad_regions_def add_all_def)
  have stay: "goto_error add_sorted [ascii ''wrap_find'' \<mapsto> True] view_one [] None (ascii ''next'')
      = Inr (None, view_one\<lparr>dialogs := [ascii ''No next lint error.'']\<rparr>)"
    using goto_wrap_or_no_more
      [where v = view_one and add = add_sorted and regions = "[Region 0 10]" and pt = 5
         and point = None and direction = "ascii ''next''" and es = False
         and saved = "[Region 5 7]"
         and edge = "Region 0 10" and settings = "[ascii ''wrap_find'' \<mapsto> True]" and errs = "[]",
       OF s _ r, THEN conjunct2]
    by (simp add: region_begin_def region_end_def region_empty_def contains_point_def
        add_all_def no_more_message_def ascii_def)
  have wrap: "goto_error add_sorted [ascii ''wrap_find'' \<mapsto> True] (view_one\<lparr>sel := [Region 12 12]\<rparr>)
        [] None (ascii ''next'')
      = Inr (Some (Region 0 10),
             view_one\<lparr>sel := [Region 0 10], shown_at_center := [Region 0 10]\<rparr>)"
    using goto_wrap_or_no_more
      [where v = "view_one\<lparr>sel := [Region 12 12]\<rparr>" and add = add_sorted
         and regions = "[Region 0 10]" and pt = 12
         and point = None and direction = "ascii ''next''" and es = True
         and saved = "[Region 12 12]"
         and edge = "Region 0 10" and settings = "[ascii ''wrap_find'' \<mapsto> True]" and errs = "[]",
       OF s' _ r', THEN conjunct1]
    by (simp add: region_begin_def region_end_def region_empty_def contains_point_def
        settings_get_def select_lint_region_def find_mark_within_def contains_region_def Let_def)
  show ?thesis using stay wrap s
    by (simp add: broad_regions_view_one contains_point_def region_begin_def region_end_def
        region_empty_def)
qed

text \<open>
  Claim C7, as the code has it. When \<open>goto_error\<close> returns no region, the selection it
  leaves is the one it saved after lines 68-69 (given an editor in which adding the saved
  ranges back to a cleared selection gives the saved selection). For a view whose selection
  had at least one range this is the selection before the call, and nothing of the view has
  changed but the dialog shown. For a view whose selection had no range it is the result
  of adding \<open>(0, 0)\<close> to the empty selection, not the selection before the call.
\<close>

theorem goto_failure_restores_selection:
  assumes readd: "add_all add [] (sel (ensure_caret add v)) = sel (ensure_caret add v)"
    and fails: "goto_error add settings v errs point direction = Inr (None, v')"
  shows "(sel v \<noteq> [] \<longrightarrow>
            sel v' = sel v
            \<and> v' = v\<lparr>dialogs := dialogs v @ [no_more_message direction]\<rparr>)
     \<and> (sel v = [] \<longrightarrow>
            sel v' = add [] (Region 0 0)
            \<and> v' = v\<lparr>sel := add [] (Region 0 0),
                      dialogs := dialogs v @ [no_more_message direction]\<rparr>)"
proof -
  have v': "v' = v\<lparr>sel := sel (ensure_caret add v),
                     dialogs := dialogs v @ [no_more_message direction]\<rparr>"
    using goto_error_result_None[OF fails] readd by simp
  have kept: "sel v' = sel v \<and> v' = v\<lparr>dialogs := dialogs v @ [no_more_message direction]\<rparr>"
    if "sel v \<noteq> []"
    using v' that by (simp add: ensure_caret_nonempty)
  have inserted: "sel v' = add [] (Region 0 0)
            \<and> v' = v\<lparr>sel := add [] (Region 0 0),
                      dialogs := dialogs v @ [no_more_message direction]\<rparr>"
    if "sel v = []"
    using v' that by (simp add: ensure_caret_def)
  from kept inserted show ?thesis by blast
qed

theorem goto_failure_restores_selection_witness:
  "add_all add_sorted [] (sel (ensure_caret add_sorted view_one))
     = sel (ensure_caret add_sorted view_one)
   \<and> sel view_one \<noteq> []
   \<and> goto_error add_sorted Map.empty view_one [] None (ascii ''next'')
      = Inr (None, view_one\<lparr>dialogs := [ascii ''No next lint error.'']\<rparr>)
   \<and> sel (view_one\<lparr>dialogs := [ascii ''No next lint error.'']\<rparr>) = sel view_one
   \<and> add_all add_sorted [] (sel (ensure_caret add_sorted (view_one\<lparr>sel := []\<rparr>)))
     = sel (ensure_caret add_sorted (view_one\<lparr>sel := []\<rparr>))
   \<and> goto_error add_sorted Map.empty (view_one\<lparr>sel := []\<rparr>) [] None (ascii ''previous'')
      = Inr (None, view_one\<lparr>sel := [Region 0 0],
                            dialogs := [ascii ''No previous lint error.'']\<rparr>)"
proof -
  have s: "[Region 5 7] = sel (ensure_caret add_sorted view_one)"
    by (simp add: ensure_caret_def)
  have fails: "goto_error add_sorted Map.empty view_one [] None (ascii ''next'')
      = Inr (None, view_one\<lparr>dialogs := [ascii ''No next lint error.'']\<rparr>)"
    by (simp add: goto_error_unfold[OF s] Let_def broad_regions_view_one directional_scan_def
        next_match_def wrap_step_def sel_first_def contains_point_def finish_goto_def
        region_begin_def region_end_def region_empty_def add_all_def
        no_more_message_def ascii_def)
  have readd: "add_all add_sorted [] (sel (ensure_caret add_sorted view_one))
                 = sel (ensure_caret add_sorted view_one)"
    by (simp add: add_all_def ensure_caret_def)
  have kept: "sel (view_one\<lparr>dialogs := [ascii ''No next lint error.'']\<rparr>) = sel view_one"
    using goto_failure_restores_selection[OF readd fails] by simp
  have s0: "[Region 0 0] = sel (ensure_caret add_sorted
              \<lparr>sel = [], warning_regions = [Region 0 10], error_regions = [],
               shown_at_center = [], dialogs = []\<rparr>)"
    by (simp add: ensure_caret_def)
  have fails0: "goto_error add_sorted Map.empty (view_one\<lparr>sel := []\<rparr>) [] None
                  (ascii ''previous'')
      = Inr (None, view_one\<lparr>sel := [Region 0 0],
                            dialogs := [ascii ''No previous lint error.'']\<rparr>)"
    by (simp add: goto_error_unfold[OF s0] Let_def broad_regions_def directional_scan_def
        prev_match_def wrap_step_def sel_first_def sel_last_def contains_point_def
        finish_goto_def region_begin_def region_end_def region_empty_def add_all_def
        no_more_message_def ascii_def)
  have readd0: "add_all add_sorted [] (sel (ensure_caret add_sorted (view_one\<lparr>sel := []\<rparr>)))
                 = sel (ensure_caret add_sorted (view_one\<lparr>sel := []\<rparr>))"
    by (simp add: add_all_def ensure_caret_def)
  have inserted: "sel (view_one\<lparr>sel := [Region 0 0],
                            dialogs := [ascii ''No previous lint error.'']\<rparr>)
                    = add_sorted [] (Region 0 0)"
    using goto_failure_restores_selection[OF readd0 fails0] by simp
  from readd fails kept readd0 fails0 inserted show ?thesis by simp
qed

text \<open>
  The claim as it is written fails on the call that \<open>select_error\<close> makes (lines
  194-199): the selection is cleared, then \<open>goto_error\<close> is called with the point of the
  picked row. With the single region \<open>(0, 10)\<close> and the point \<open>3\<close> inside it no region
  is returned, and the selection left behind is \<open>[(0, 0)]\<close>, which is not the selection
  without ranges of before the call.
\<close>

theorem goto_failure_restores_selection_counterexample:
  "goto_error add_sorted Map.empty (view_one\<lparr>sel := []\<rparr>) [] (Some 3) (ascii ''next'')
      = Inr (None, view_one\<lparr>sel := [Region 0 0],
                            dialogs := [ascii ''No next lint error.'']\<rparr>)
   \<and> sel (view_one\<lparr>sel := [Region 0 0], dialogs := [ascii ''No next lint error.'']\<rparr>)
       \<noteq> sel (view_one\<lparr>sel := []\<rparr>)"
proof -
  have s0: "[Region 0 0] = sel (ensure_caret add_sorted
              \<lparr>sel = [], warning_regions = [Region 0 10], error_regions = [],
               shown_at_center = [], dialogs = []\<rparr>)"
    by (simp add: ensure_caret_def)
  have "goto_error add_sorted Map.empty (view_one\<lparr>sel := []\<rparr>) [] (Some 3) (ascii ''next'')
      = Inr (None, view_one\<lparr>sel := [Region 0 0],
                            dialogs := [ascii ''No next lint error.'']\<rparr>)"
    by (simp add: goto_error_unfold[OF s0] Let_def broad_regions_def directional_scan_def
        next_match_def wrap_step_def sel_first_def contains_point_def
        finish_goto_def region_begin_def region_end_def region_empty_def add_all_def
        no_more_message_def ascii_def)
  then show ?thesis by simp
qed

text \<open>
  Claim C9. When the anchor point is defined (a point is given, or the selection has a
  range after lines 68-69), \<open>goto_error\<close> raises \<open>IndexError\<close> exactly when the selection
  object holding the warning and error regions has no region, and returns otherwise. Both
  the guard of \<open>error_command\<close> and \<open>is_enabled\<close> look at the error store only: with a
  non-empty error store and no warning and no error region, the command is enabled, the
  guard lets it run, and it raises \<open>IndexError\<close> at \<open>regions[0]\<close>.
\<close>

theorem goto_region_access_needs_regions:
  assumes anchored: "point \<noteq> None \<or> sel (ensure_caret add v) \<noteq> []"
  shows "(goto_error add settings v errs point direction = Inl IndexError
            \<longleftrightarrow> broad_regions add v = [])
     \<and> (broad_regions add v \<noteq> []
          \<longrightarrow> (\<exists>res. goto_error add settings v errs point direction = Inr res))
     \<and> (errs \<noteq> [] \<and> warning_regions v = [] \<and> error_regions v = []
          \<longrightarrow> is_enabled (Some errs)
              \<and> goto_error_run add settings (Some errs) v point direction = Inl IndexError)"
proof -
  have iff: "goto_error add settings v errs point direction = Inl IndexError
            \<longleftrightarrow> broad_regions add v = []"
    using anchored by (rule goto_error_IndexError_iff)
  have ok: "\<exists>res. goto_error add settings v errs point direction = Inr res"
    if "broad_regions add v \<noteq> []"
  proof (cases "goto_error add settings v errs point direction")
    case (Inl e)
    then have "goto_error add settings v errs point direction = Inl IndexError"
      by (cases e) simp
    with iff that show ?thesis by simp
  next
    case (Inr res)
    then show ?thesis by blast
  qed
  have run: "is_enabled (Some errs)
              \<and> goto_error_run add settings (Some errs) v point direction = Inl IndexError"
    if "errs \<noteq> []" "warning_regions v = []" "error_regions v = []"
  proof -
    from that have "broad_regions add v = []" by (simp add: broad_regions_def)
    with iff have "goto_error add settings v errs point direction = Inl IndexError" by simp
    with that show ?thesis
      by (simp add: is_enabled_def goto_error_run_def error_command_def)
  qed
  from iff ok run show ?thesis by blast
qed

theorem goto_region_access_needs_regions_witness:
  "sel (ensure_caret add_sorted view_unmarked) \<noteq> []
   \<and> [(2, [(0, ascii ''E501 line too long'')])] \<noteq> ([] :: errors)
   \<and> is_enabled (Some [(2, [(0, ascii ''E501 line too long'')])])
   \<and> goto_error_run add_sorted Map.empty (Some [(2, [(0, ascii ''E501 line too long'')])])
        view_unmarked None (ascii ''next'') = Inl IndexError"
proof -
  have a: "None \<noteq> (None :: int option) \<or> sel (ensure_caret add_sorted view_unmarked) \<noteq> []"
    by (simp add: ensure_caret_def)
  from goto_region_access_needs_regions
    [where v = view_unmarked and add = add_sorted and settings = Map.empty
       and errs = "[(2, [(0, ascii ''E501 line too long'')])]" and point = None
       and direction = "ascii ''next''", OF a, THEN conjunct2, THEN conjunct2]
  show ?thesis by (simp add: ensure_caret_def)
qed



section \<open>Applying the selection\<close>

text \<open>
  Claim C4. \<open>select_lint_region\<close> leaves a selection of exactly one range, whatever the
  selection was before: the marks are the warning and error regions sorted by \<open>begin\<close>
  (a stable sort, so the marks are the same regions in ascending \<open>begin\<close> order); the
  range is the first mark \<open>m\<close> in that order with \<open>region.begin \<le> m.begin\<close> and
  \<open>m.end \<le> region.end\<close>, and the zero-length range at \<open>region.begin\<close> when no mark
  lies within the region. The editor is assumed to turn a cleared selection to which one
  region is added into the selection of that one region.
\<close>

theorem select_lint_region_replaces_selection:
  assumes fresh: "\<And>r. add [] r = [r]"
  shows "sorted (map region_begin (sort_key region_begin (warning_regions v @ error_regions v)))
     \<and> mset (sort_key region_begin (warning_regions v @ error_regions v))
         = mset (warning_regions v @ error_regions v)
     \<and> (\<forall>i < length (sort_key region_begin (warning_regions v @ error_regions v)).
          (let marks = sort_key region_begin (warning_regions v @ error_regions v)
           in region_begin region \<le> region_begin (marks ! i)
              \<and> region_end (marks ! i) \<le> region_end region
              \<and> (\<forall>j<i. \<not> (region_begin region \<le> region_begin (marks ! j)
                            \<and> region_end (marks ! j) \<le> region_end region))
              \<longrightarrow> sel (select_lint_region add v region) = [marks ! i]))
     \<and> ((\<forall>m \<in> set (warning_regions v @ error_regions v).
            \<not> (region_begin region \<le> region_begin m \<and> region_end m \<le> region_end region))
          \<longrightarrow> sel (select_lint_region add v region)
                = [Region (region_begin region) (region_begin region)])"
proof -
  let ?marks = "sort_key region_begin (warning_regions v @ error_regions v)"
  let ?inside = "\<lambda>m. region_begin region \<le> region_begin m \<and> region_end m \<le> region_end region"
  have fm: "find_mark_within v region = find ?inside ?marks"
    by (simp add: find_mark_within_def contains_region_iff)
  have hit: "sel (select_lint_region add v region) = [?marks ! i]"
    if "i < length ?marks" "?inside (?marks ! i)" "\<forall>j<i. \<not> ?inside (?marks ! j)" for i
  proof -
    have "find ?inside ?marks = Some (?marks ! i)"
      unfolding find_Some_iff using that by blast
    then show ?thesis by (simp add: select_lint_region_def Let_def fm fresh)
  qed
  have miss: "sel (select_lint_region add v region)
                = [Region (region_begin region) (region_begin region)]"
    if "\<forall>m \<in> set (warning_regions v @ error_regions v). \<not> ?inside m"
  proof -
    have "find ?inside ?marks = None"
      unfolding find_None_iff using that by auto
    then show ?thesis by (simp add: select_lint_region_def Let_def fm fresh)
  qed
  show ?thesis using hit miss by (simp add: Let_def)
qed

theorem select_lint_region_replaces_selection_witness:
  "(\<forall>r. (\<lambda>s r. s @ [r]) [] r = [r])
   \<and> sel (select_lint_region (\<lambda>s r. s @ [r])
        \<lparr>sel = [Region 20 30, Region 40 40], warning_regions = [Region 3 8],
         error_regions = [Region 0 5], shown_at_center = [], dialogs = []\<rparr> (Region 0 10))
      = [Region 0 5]"
  using select_lint_region_replaces_selection
    [where add = "\<lambda>s r. s @ [r]"
       and v = "\<lparr>sel = [Region 20 30, Region 40 40], warning_regions = [Region 3 8],
         error_regions = [Region 0 5], shown_at_center = [], dialogs = []\<rparr>"
       and region = "Region 0 10",
     THEN conjunct2, THEN conjunct2, THEN conjunct1, rule_format, of 0]
  by (simp add: region_begin_def region_end_def)

section \<open>Building the quick panel\<close>

text \<open>
  Claim C5. Every row of a line is built by \<open>quick_panel_row\<close> from the stripped line
  and \<open>diff\<close>, the number of leading characters that were stripped. For a diagnostic at
  \<open>column\<close>, with \<open>adj = column - diff\<close>: if \<open>adj > 40\<close> the preview is \<open>...\<close> followed by the stripped
  line from offset \<open>adj - 40\<close> on, with the arrow spliced in at offset 43; if
  \<open>adj \<le> 40\<close> the preview is the whole stripped line with the arrow spliced in at the
  slice index \<open>adj\<close>, which for \<open>0 \<le> adj\<close> is the offset \<open>adj\<close> from the start. At
  \<open>adj = 41\<close> the preview starts with \<open>...\<close>; at \<open>adj = 40\<close> nothing is cut.
\<close>

theorem quick_panel_preview:
  assumes adj: "adj = column - diff"
    and code: "code = snd (quick_panel_row lineno line diff (column, msg)) ! 1"
    and trunc: "truncated = ascii ''...'' @ drop (nat (adj - 40)) line"
    and raw: "raw = rstrip [10, 13] (full_line l)"
  shows "line_rows full_line (l, messages)
           = map (quick_panel_row l (lstrip raw) (int (length (takeWhile isspace raw))))
               (sort messages)
     \<and> (adj > 40 \<longrightarrow> code = take 43 truncated @ arrow @ drop 43 truncated)
     \<and> (adj \<le> 40 \<longrightarrow> code = slice_to line adj @ arrow @ slice_from line adj
                     \<and> slice_to line adj @ slice_from line adj = line)
     \<and> (0 \<le> adj \<and> adj \<le> 40 \<longrightarrow> code = take (nat adj) line @ arrow @ drop (nat adj) line)
     \<and> (adj = 41 \<longrightarrow> take 3 code = ascii ''...'')
     \<and> (adj = 40 \<longrightarrow> code = take 40 line @ arrow @ drop 40 line)"
proof -
  have big: "code = take 43 truncated @ arrow @ drop 43 truncated" if "adj > 40"
    using that unfolding code trunc adj quick_panel_row_code
    by (simp add: slice_nonneg)
  have small: "code = slice_to line adj @ arrow @ slice_from line adj" if "adj \<le> 40"
    using that unfolding code adj quick_panel_row_code by simp
  have mid: "code = take (nat adj) line @ arrow @ drop (nat adj) line" if "0 \<le> adj" "adj \<le> 40"
    using small[OF that(2)] that(1) by (simp add: slice_nonneg)
  have b41: "take 3 code = ascii ''...''" if "adj = 41"
  proof -
    from that have "code = take 43 truncated @ arrow @ drop 43 truncated" using big by simp
    then show ?thesis by (simp add: trunc ascii_def)
  qed
  have b40: "code = take 40 line @ arrow @ drop 40 line" if "adj = 40"
    using mid[of] that by simp
  have rows: "line_rows full_line (l, messages)
           = map (quick_panel_row l (lstrip raw) (int (length (takeWhile isspace raw))))
               (sort messages)"
    unfolding raw by (rule line_rows_stripped)
  show ?thesis using rows big small mid b41 b40 slice_to_from by blast
qed

theorem quick_panel_preview_witness:
  "snd (quick_panel_row 7 (ascii ''abcdefghijklmnopqrstuvwxyzABCDEFGHIJKLMNOPQRSTUVWXYZ'') 4
          (45, ascii ''E501'')) ! 1
     = ascii ''...bcdefghijklmnopqrstuvwxyzABCDEFGHIJKLMNO'' @ arrow @ ascii ''PQRSTUVWXYZ''
   \<and> snd (quick_panel_row 7 (ascii ''abcdefghijklmnopqrstuvwxyzABCDEFGHIJKLMNOPQRSTUVWXYZ'') 4
          (44, ascii ''E501'')) ! 1
     = ascii ''abcdefghijklmnopqrstuvwxyzABCDEFGHIJKLMN'' @ arrow @ ascii ''OPQRSTUVWXYZ''"
proof -
  have a: "snd (quick_panel_row 7 (ascii ''abcdefghijklmnopqrstuvwxyzABCDEFGHIJKLMNOPQRSTUVWXYZ'') 4
          (45, ascii ''E501'')) ! 1
     = ascii ''...bcdefghijklmnopqrstuvwxyzABCDEFGHIJKLMNO'' @ arrow @ ascii ''PQRSTUVWXYZ''"
    using quick_panel_preview
      [where adj = 41 and column = 45 and diff = 4 and lineno = 7 and msg = "ascii ''E501''"
         and line = "ascii ''abcdefghijklmnopqrstuvwxyzABCDEFGHIJKLMNOPQRSTUVWXYZ''",
       OF _ refl refl refl, THEN conjunct2, THEN conjunct1]
    by (simp add: ascii_def)
  have b: "snd (quick_panel_row 7 (ascii ''abcdefghijklmnopqrstuvwxyzABCDEFGHIJKLMNOPQRSTUVWXYZ'') 4
          (44, ascii ''E501'')) ! 1
     = ascii ''abcdefghijklmnopqrstuvwxyzABCDEFGHIJKLMN'' @ arrow @ ascii ''OPQRSTUVWXYZ''"
    using quick_panel_preview
      [where adj = 40 and column = 44 and diff = 4 and lineno = 7 and msg = "ascii ''E501''"
         and line = "ascii ''abcdefghijklmnopqrstuvwxyzABCDEFGHIJKLMNOPQRSTUVWXYZ''",
       OF _ refl refl refl, THEN conjunct2, THEN conjunct2, THEN conjunct2, THEN conjunct2,
       THEN conjunct2]
    by (simp add: ascii_def)
  from a b show ?thesis ..
qed

text \<open>
  Claim C8. On the line \<open>"    x = y  # comment"\<close> (four characters stripped) the
  diagnostic at column 2 has the adjusted column \<open>-2\<close>. Its preview is the whole stripped
  line, and the arrow stands two characters before the end of it (offset 14), where the
  slices \<open>[:-2]\<close> and \<open>[-2:]\<close> meet, not at offset 0.
\<close>

theorem negative_column_marker_counts_from_end:
  "show_all_errors (\<lambda>lineno. ascii ''    x = y  # comment'' @ [10])
         [(4, [(10, ascii ''undefined name''), (2, ascii ''unused import'')])]
   = ([(4, 2), (4, 10)],
      [[ascii ''5  unused import'', ascii ''x = y  # comme'' @ arrow @ ascii ''nt''],
       [ascii ''5  undefined name'', ascii ''x = y '' @ arrow @ ascii '' # comment'']])"
  by (simp add: show_all_errors_def line_rows_def quick_panel_row_def rstrip_def lstrip_def
      isspace_def slice_from_def slice_to_def slice_index_def str_int_def max_prefix_len_def
      arrow_def ascii_def Let_def)


text \<open>
  Claim C6. For an error store with one item per line number, \<open>error_info\<close> and
  \<open>options\<close> are the images of the diagnostics \<open>(line, column, message)\<close> listed in
  ascending order: \<open>keys\<close> is sorted, holds every diagnostic of the store as often as
  the store does, and row \<open>i\<close> is built from \<open>keys ! i\<close>. The result does not depend on
  the order in which the dict yields its items.
\<close>

theorem quick_list_order:
  assumes keys_distinct: "distinct (map fst errs)"
    and keys: "keys = concat (map (\<lambda>item. map (\<lambda>m. (fst item, fst m, snd m)) (sort (snd item)))
                               (sort errs))"
  shows "sorted keys
     \<and> mset keys = mset (concat (map (\<lambda>item. map (\<lambda>m. (fst item, fst m, snd m)) (snd item)) errs))
     \<and> fst (show_all_errors full_line errs) = map (\<lambda>k. (fst k, fst (snd k))) keys
     \<and> snd (show_all_errors full_line errs)
         = map (\<lambda>k. snd (quick_panel_row (fst k)
                      (lstrip (rstrip [10, 13] (full_line (fst k))))
                      (int (length (rstrip [10, 13] (full_line (fst k))))
                        - int (length (lstrip (rstrip [10, 13] (full_line (fst k))))))
                      (snd k))) keys
     \<and> (\<forall>errs'. mset errs' = mset errs
           \<longrightarrow> show_all_errors full_line errs' = show_all_errors full_line errs)"
proof -
  have d: "distinct (map fst (sort errs))"
  proof -
    have "mset (map fst (sort errs)) = mset (map fst errs)" by simp
    then show ?thesis using keys_distinct by (metis mset_eq_imp_distinct_iff)
  qed
  have srt: "sorted keys" unfolding keys by (rule sorted_blocks[OF _ d]) simp
  have ms: "mset keys
      = mset (concat (map (\<lambda>item. map (\<lambda>m. (fst item, fst m, snd m)) (snd item)) errs))"
  proof -
    have "mset (concat (map (\<lambda>item. map (\<lambda>m. (fst item, fst m, snd m)) (sort (snd item))) xs))
      = mset (concat (map (\<lambda>item. map (\<lambda>m. (fst item, fst m, snd m)) (snd item)) xs))"
      for xs :: errors
      by (induction xs) simp_all
    moreover have "mset (concat (map f (sort errs))) = mset (concat (map f errs))"
      for f :: "int \<times> message list \<Rightarrow> (int \<times> int \<times> pystr) list"
    proof -
      have "mset (concat (map f (sort errs))) = sum_mset (mset (map (mset \<circ> f) (sort errs)))"
        by (simp only: mset_concat sum_mset_sum_list map_map)
      also have "\<dots> = sum_mset (mset (map (mset \<circ> f) errs))" by simp
      also have "\<dots> = mset (concat (map f errs))"
        by (simp only: mset_concat sum_mset_sum_list map_map)
      finally show ?thesis .
    qed
    ultimately show ?thesis unfolding keys by simp
  qed
  have rows: "concat (map (line_rows full_line) (sort errs))
      = map (\<lambda>k. ((fst k, fst (snd k)),
               snd (quick_panel_row (fst k)
                      (lstrip (rstrip [10, 13] (full_line (fst k))))
                      (int (length (rstrip [10, 13] (full_line (fst k))))
                        - int (length (lstrip (rstrip [10, 13] (full_line (fst k))))))
                      (snd k)))) keys"
    unfolding keys by (simp add: map_concat comp_def ext[OF line_rows_keys])
  have info: "fst (show_all_errors full_line errs) = map (\<lambda>k. (fst k, fst (snd k))) keys"
    by (simp add: show_all_errors_def Let_def rows comp_def)
  have opts: "snd (show_all_errors full_line errs)
         = map (\<lambda>k. snd (quick_panel_row (fst k)
                      (lstrip (rstrip [10, 13] (full_line (fst k))))
                      (int (length (rstrip [10, 13] (full_line (fst k))))
                        - int (length (lstrip (rstrip [10, 13] (full_line (fst k))))))
                      (snd k))) keys"
    by (simp add: show_all_errors_def Let_def rows comp_def)
  have det: "show_all_errors full_line errs' = show_all_errors full_line errs"
    if "mset errs' = mset errs" for errs'
    using sort_mset_cong[OF that] by (simp add: show_all_errors_def)
  from srt ms info opts det show ?thesis by blast
qed

theorem quick_list_order_witness:
  "distinct (map fst ([(7, [(3, ascii ''b''), (1, ascii ''a'')]),
                       (4, [(10, ascii ''undefined name''), (2, ascii ''unused import'')])]
                      :: errors))
   \<and> sorted [(4, 2, ascii ''unused import''), (4, 10, ascii ''undefined name''),
             (7, 1, ascii ''a''), (7 :: int, 3 :: int, ascii ''b'')]
   \<and> fst (show_all_errors (\<lambda>lineno. ascii ''    x = y  # comment'' @ [10])
           [(7, [(3, ascii ''b''), (1, ascii ''a'')]),
            (4, [(10, ascii ''undefined name''), (2, ascii ''unused import'')])])
       = [(4, 2), (4, 10), (7, 1), (7, 3)]
   \<and> show_all_errors (\<lambda>lineno. ascii ''    x = y  # comment'' @ [10])
           [(4, [(10, ascii ''undefined name''), (2, ascii ''unused import'')]),
            (7, [(3, ascii ''b''), (1, ascii ''a'')])]
       = show_all_errors (\<lambda>lineno. ascii ''    x = y  # comment'' @ [10])
           [(7, [(3, ascii ''b''), (1, ascii ''a'')]),
            (4, [(10, ascii ''undefined name''), (2, ascii ''unused import'')])]"
proof -
  let ?errs = "[(7, [(3, ascii ''b''), (1, ascii ''a'')]),
               (4, [(10, ascii ''undefined name''), (2, ascii ''unused import'')])]
               :: errors"
  let ?keys = "[(4, 2, ascii ''unused import''), (4, 10, ascii ''undefined name''),
               (7, 1, ascii ''a''), (7 :: int, 3 :: int, ascii ''b'')]"
  have d: "distinct (map fst ?errs)" by simp
  have k: "?keys = concat (map (\<lambda>item. map (\<lambda>m. (fst item, fst m, snd m)) (sort (snd item)))
                               (sort ?errs))"
    by simp
  note t = quick_list_order
    [where full_line = "\<lambda>lineno. ascii ''    x = y  # comment'' @ [10]", OF d k]
  have s: "sorted ?keys" using t by blast
  have i: "fst (show_all_errors (\<lambda>lineno. ascii ''    x = y  # comment'' @ [10]) ?errs)
       = [(4, 2), (4, 10), (7, 1), (7, 3)]"
    using t[THEN conjunct2, THEN conjunct2, THEN conjunct1] by simp
  have p: "show_all_errors (\<lambda>lineno. ascii ''    x = y  # comment'' @ [10])
           [(4, [(10, ascii ''undefined name''), (2, ascii ''unused import'')]),
            (7, [(3, ascii ''b''), (1, ascii ''a'')])]
       = show_all_errors (\<lambda>lineno. ascii ''    x = y  # comment'' @ [10]) ?errs"
    using t[THEN conjunct2, THEN conjunct2, THEN conjunct2, THEN conjunct2, rule_format,
            of "[(4, [(10, ascii ''undefined name''), (2, ascii ''unused import'')]),
                (7, [(3, ascii ''b''), (1, ascii ''a'')])]"]
    by simp
  from d s i p show ?thesis by blast
qed
end
